theory Spec2Isabelle
  imports Main "HOL-Library.AList"
begin

section \<open>JavaScript values\<close>

text \<open>
  The module handles three kinds of objects: story args (\<open>Story['args']\<close>, any value per
  key), query parameter objects (\<open>QueryParams\<close>) and the layout additions. A JavaScript
  object is an association list in insertion order, which is the order \<open>Object.entries\<close>
  and \<open>Object.keys\<close> enumerate (the engine's special ordering of integer-like keys and
  inherited prototype properties are not modelled). Numbers are the integers; \<open>NaN\<close>,
  fractions, dates and functions are outside the model.
\<close>

datatype jsval =
    JUndefined
  | JNull
  | JBool bool
  | JNum int
  | JStr string
  | JArr "jsval list"
  | JObj "(string \<times> jsval) list"

type_synonym jsobj = "(string \<times> jsval) list"

datatype js_error = TypeError | ThrownError

text \<open>Property read \<open>obj[key]\<close>: \<open>undefined\<close> for a missing key.\<close>

definition get :: "jsobj \<Rightarrow> string \<Rightarrow> jsval" where
  "get obj key = (case map_of obj key of None \<Rightarrow> JUndefined | Some v \<Rightarrow> v)"

text \<open>Truthiness, as tested by \<open>if (x)\<close>, \<open>x && y\<close> and \<open>x || y\<close>.\<close>

fun truthy :: "jsval \<Rightarrow> bool" where
  "truthy JUndefined = False"
| "truthy JNull = False"
| "truthy (JBool b) = b"
| "truthy (JNum n) = (n \<noteq> 0)"
| "truthy (JStr s) = (s \<noteq> [])"
| "truthy (JArr xs) = True"
| "truthy (JObj kvs) = True"

text \<open>
  Modelled from the spec: \<open>deepEqual\<close> is the package \<open>fast-deep-equal\<close>, whose source
  is not part of the repository; the spec asks for "one structural-equality primitive" for
  which the order of keys is irrelevant. Identical primitives are equal; two arrays are
  equal when they have the same length and equal elements; two plain objects are equal
  when they have the same number of keys, every key of the first is an own key of the
  second, and the values under every key of the first are equal. Anything else is unequal.
\<close>

fun deepEqual :: "jsval \<Rightarrow> jsval \<Rightarrow> bool" where
  "deepEqual (JArr xs) (JArr ys) = list_all2 deepEqual xs ys"
| "deepEqual (JObj xs) (JObj ys) =
     (length xs = length ys \<and>
      list_all (\<lambda>(k, v). k \<in> fst ` set ys) xs \<and>
      list_all (\<lambda>(k, v). deepEqual v (get ys k)) xs)"
| "deepEqual a b = (a = b)"

text \<open>Objects built by JavaScript have pairwise distinct keys, at every depth.\<close>

fun wf_val :: "jsval \<Rightarrow> bool" where
  "wf_val (JArr xs) = list_all wf_val xs"
| "wf_val (JObj kvs) = (distinct (map fst kvs) \<and> list_all (\<lambda>(k, v). wf_val v) kvs)"
| "wf_val v = True"

section \<open>Strings\<close>

text \<open>\<open>s.split(c)\<close> for a one-character separator: never empty, \<open>''.split(c)\<close> is \<open>['']\<close>.\<close>

fun split_on :: "char \<Rightarrow> string \<Rightarrow> string list" where
  "split_on c [] = ['''']"
| "split_on c (x # xs) =
     (if x = c then [] # split_on c xs
      else (case split_on c xs of
              [] \<Rightarrow> [x # '''']
            | p # ps \<Rightarrow> (x # p) # ps))"

text \<open>\<open>parts.join(c)\<close>.\<close>

fun join :: "char \<Rightarrow> string list \<Rightarrow> string" where
  "join c [] = []"
| "join c [p] = p"
| "join c (p # q # ps) = p @ c # join c (q # ps)"

text \<open>\<open>s.replace(a, b)\<close> with string arguments replaces the first occurrence only.\<close>

fun replace_first :: "char \<Rightarrow> char \<Rightarrow> string \<Rightarrow> string" where
  "replace_first a b [] = []"
| "replace_first a b (x # xs) = (if x = a then b # xs else x # replace_first a b xs)"

text \<open>\<open>String(n)\<close> for an integer \<open>n\<close>: decimal digits, with a minus sign when negative.\<close>

definition digit_char :: "nat \<Rightarrow> char" where
  "digit_char d = ''0123456789'' ! d"

fun show_nat :: "nat \<Rightarrow> string" where
  "show_nat n = (if n < 10 then [digit_char n] else show_nat (n div 10) @ [digit_char (n mod 10)])"

declare show_nat.simps [simp del]

definition show_int :: "int \<Rightarrow> string" where
  "show_int i = (if i < 0 then CHR ''-'' # show_nat (nat (- i)) else show_nat (nat i))"

section \<open>ArgsCodec\<close>

text \<open>
  Modelled from the spec: \<open>stringify\<close> belongs to the package \<open>qs\<close>, whose source is
  not part of the repository. The spec calls it "standard nested-key stringification,
  emitting semicolon-delimited segments with the key/value separator character"; with the
  options of \<open>argsParseOptions\<close> and
  \<open>encode: false\<close> that is: a primitive under the key path \<open>p\<close> gives the segment
  \<open>p=String(value)\<close> (\<open>null\<close> gives \<open>p=\<close>), \<open>undefined\<close> gives no segment, an array
  element extends the path by \<open>[index]\<close>, an object member by \<open>.key\<close> (\<open>allowDots\<close>), and
  the segments are joined by the delimiter \<open>;\<close>. Nothing is percent-encoded.
\<close>

function (sequential) stringify_val :: "jsval \<Rightarrow> string \<Rightarrow> string list" where
  "stringify_val JUndefined prefix = []"
| "stringify_val JNull prefix = [prefix @ ''='']"
| "stringify_val (JBool b) prefix = [prefix @ ''='' @ (if b then ''true'' else ''false'')]"
| "stringify_val (JNum n) prefix = [prefix @ ''='' @ show_int n]"
| "stringify_val (JStr s) prefix = [prefix @ ''='' @ s]"
| "stringify_val (JArr xs) prefix =
     concat (map (\<lambda>(i, x). stringify_val x (prefix @ ''['' @ show_nat i @ '']''))
       (enumerate 0 xs))"
| "stringify_val (JObj kvs) prefix =
     concat (map (\<lambda>(k, v). stringify_val v (prefix @ ''.'' @ k)) kvs)"
  by pat_completeness auto

lemma size_enumerate_elem:
  "(i, x) \<in> set (enumerate n xs) \<Longrightarrow> size x < Suc (size_list size xs)"
proof (induction xs arbitrary: n)
  case Nil
  then show ?case by simp
next
  case (Cons a xs)
  then show ?case by (fastforce simp: less_Suc_eq)
qed

lemma size_member_elem:
  "(k, v) \<in> set kvs \<Longrightarrow> size v < Suc (size_list (size_prod (\<lambda>x. 0) size) kvs)"
  by (induction kvs) auto

termination stringify_val
  by (relation "measure (\<lambda>(v, p). size v)")
     (auto dest: size_enumerate_elem size_member_elem)

definition qs_stringify :: "jsobj \<Rightarrow> string" where
  "qs_stringify obj = join CHR '';'' (concat (map (\<lambda>(k, v). stringify_val v k) obj))"

text \<open>
  \<open>parse\<close> belongs to the same package. It is a parameter of the model; all that the
  properties below need of it is the type of its result: an object whose leaves are
  strings, nested through arrays and objects (the package's \<open>ParsedQs\<close>).
\<close>

datatype parsed_qs =
    QStr string
  | QTrue
  | QArr "parsed_qs list"
  | QObj "(string \<times> parsed_qs) list"

fun of_qs :: "parsed_qs \<Rightarrow> jsval" where
  "of_qs (QStr s) = JStr s"
| "of_qs QTrue = JBool True"
| "of_qs (QArr xs) = JArr (map of_qs xs)"
| "of_qs (QObj kvs) = JObj (map (\<lambda>(k, v). (k, of_qs v)) kvs)"

type_synonym qs_parse = "string \<Rightarrow> (string \<times> parsed_qs) list"

definition parseArgs :: "qs_parse \<Rightarrow> string \<Rightarrow> jsobj" where
  "parseArgs parse argsString =
     map (\<lambda>(k, v). (k, of_qs v))
       (parse (join CHR '';'' (map (replace_first CHR '':'' CHR ''='')
          (split_on CHR '';'' argsString))))"

definition stringifyArgs :: "jsobj \<Rightarrow> string" where
  "stringifyArgs args =
     join CHR '';'' (map (replace_first CHR ''='' CHR '':'')
       (split_on CHR '';'' (qs_stringify args)))"

section \<open>QueryLocationParser\<close>

text \<open>
  The collaborators of \<open>initialUrlSupport\<close> that are not part of this module:
  \<open>queryFromLocation\<close> of the router, and \<open>toId\<close> and \<open>sanitize\<close> of the story format
  package, which may throw.
\<close>

record 'loc collaborators =
  queryFromLocation :: "'loc \<Rightarrow> jsobj"
  toId :: "jsval \<Rightarrow> jsval \<Rightarrow> js_error + string"
  sanitize :: "jsval \<Rightarrow> js_error + string"

text \<open>The part \<open>state: { location, path, viewMode, storyId }\<close> of \<open>ModuleArgs\<close>.\<close>

record 'loc module_args =
  state_location :: 'loc
  state_path :: string
  state_viewMode :: jsval
  state_storyId :: jsval

text \<open>\<open>Additions\<close>: a field that was never assigned is \<open>None\<close>.\<close>

record additions =
  isFullscreen :: "bool option"
  showPanel :: "bool option"
  panelPosition :: "jsval option"
  showNav :: "bool option"

text \<open>
  An object together with its identity: two references are the same object exactly when
  the identities agree. The rest object \<open>otherParams\<close> is a new object at every call.
\<close>

record params_obj =
  ident :: nat
  entries :: jsobj

text \<open>The module variable \<open>prevParams\<close>, and the identity the next new object gets.\<close>

record parser_memo =
  prevParams :: "params_obj option"
  nextIdent :: nat

record 'loc initial_state =
  viewMode :: jsval
  layout :: additions
  selectedPanel :: jsval
  location :: 'loc
  path :: string
  customQueryParams :: params_obj
  storyId :: jsval

definition knownKeys :: "string list" where
  "knownKeys = [''full'', ''panel'', ''nav'', ''addons'', ''panelRight'', ''stories'',
     ''addonPanel'', ''selectedKind'', ''selectedStory'', ''path'']"

text \<open>The rest of the destructuring: every entry whose key is not one of the named ones.\<close>

definition otherParams :: "jsobj \<Rightarrow> jsobj" where
  "otherParams query = filter (\<lambda>(k, v). k \<notin> set knownKeys) query"

text \<open>Lines 82 to 105: the statements that fill \<open>addition\<close>, in the order of the source.\<close>

definition layoutAdditions :: "jsobj \<Rightarrow> additions" where
  "layoutAdditions query =
     (let full = get query ''full'';
          panel = get query ''panel'';
          nav = get query ''nav'';
          addons = get query ''addons'';
          panelRight = get query ''panelRight'';
          stories = get query ''stories'';
          a0 = \<lparr>isFullscreen = None, showPanel = None, panelPosition = None, showNav = None\<rparr>;
          a1 = (if full = JStr ''1'' then a0\<lparr>isFullscreen := Some True\<rparr> else a0);
          a2 = (if truthy panel then
                  (if panel \<in> set [JStr ''right'', JStr ''bottom'']
                   then a1\<lparr>panelPosition := Some panel\<rparr>
                   else if panel = JStr ''0'' then a1\<lparr>showPanel := Some False\<rparr>
                   else a1)
                else a1);
          a3 = (if nav = JStr ''0'' then a2\<lparr>showNav := Some False\<rparr> else a2);
          a4 = (if addons = JStr ''0'' then a3\<lparr>showPanel := Some False\<rparr> else a3);
          a5 = (if panelRight = JStr ''1'' then a4\<lparr>panelPosition := Some (JStr ''right'')\<rparr> else a4);
          a6 = (if stories = JStr ''0'' then a5\<lparr>showNav := Some False\<rparr> else a5)
      in a6)"

text \<open>Lines 113 to 120: the story identifier.\<close>

definition resolveStoryId :: "'loc collaborators \<Rightarrow> jsval \<Rightarrow> jsobj \<Rightarrow> js_error + jsval" where
  "resolveStoryId ext storyIdFromUrl query =
     (let selectedKind = get query ''selectedKind'';
          selectedStory = get query ''selectedStory''
      in if \<not> truthy storyIdFromUrl then
           (if truthy selectedKind \<and> truthy selectedStory then
              (case toId ext selectedKind selectedStory of
                 Inl e \<Rightarrow> Inl e
               | Inr i \<Rightarrow> Inr (JStr i))
            else if truthy selectedKind then
              (case sanitize ext selectedKind of
                 Inl e \<Rightarrow> Inl e
               | Inr i \<Rightarrow> Inr (JStr i))
            else Inr storyIdFromUrl)
         else Inr storyIdFromUrl)"

text \<open>
  Lines 123 and 124: \<open>deepEqual(prevParams, otherParams) ? prevParams : otherParams\<close>.
  While \<open>prevParams\<close> is \<open>undefined\<close> the comparison is false.
\<close>

definition memoParams :: "parser_memo \<Rightarrow> jsobj \<Rightarrow> params_obj \<times> parser_memo" where
  "memoParams memo other =
     (let fresh = \<lparr>ident = nextIdent memo, entries = other\<rparr>;
          result = (case prevParams memo of
                      None \<Rightarrow> fresh
                    | Some prev \<Rightarrow>
                        if deepEqual (JObj (entries prev)) (JObj other) then prev else fresh)
      in (result, \<lparr>prevParams = Some result, nextIdent = Suc (nextIdent memo)\<rparr>))"

definition initialUrlSupport ::
  "'loc collaborators \<Rightarrow> 'loc module_args \<Rightarrow> parser_memo
     \<Rightarrow> js_error + ('loc initial_state \<times> parser_memo)" where
  "initialUrlSupport ext args memo =
     (let query = queryFromLocation ext (state_location args);
          addonPanel = get query ''addonPanel'';
          sel = (if truthy addonPanel then addonPanel else JUndefined)
      in case resolveStoryId ext (state_storyId args) query of
           Inl e \<Rightarrow> Inl e
         | Inr sid \<Rightarrow>
             (let (params, memo') = memoParams memo (otherParams query)
              in Inr (\<lparr>viewMode = state_viewMode args,
                        layout = layoutAdditions query,
                        selectedPanel = sel,
                        location = state_location args,
                        path = state_path args,
                        customQueryParams = params,
                        storyId = sid\<rparr>, memo')))"

section \<open>QueryParamStore\<close>

text \<open>What the api reads of \<open>store.getState()\<close>; \<open>None\<close> is \<open>undefined\<close>.\<close>

record store_state =
  store_customQueryParams :: "jsobj option"
  store_path :: string

datatype store_effect = SetState jsobj

definition getQueryParam :: "string \<Rightarrow> store_state \<Rightarrow> jsval" where
  "getQueryParam key st =
     (case store_customQueryParams st of
        None \<Rightarrow> JUndefined
      | Some params \<Rightarrow> get params key)"

text \<open>
  Copying the own properties of \<open>src\<close> onto \<open>target\<close>, as an object spread does: an
  existing key keeps its place and takes the new value, a new key goes to the end.
\<close>

definition assign :: "jsobj \<Rightarrow> jsobj \<Rightarrow> jsobj" where
  "assign target src = foldl (\<lambda>acc (k, v). AList.update k v acc) target src"

text \<open>The \<open>reduce\<close> of line 161: the entries of the input that are not \<open>null\<close>.\<close>

definition nonNullParams :: "jsobj \<Rightarrow> jsobj" where
  "nonNullParams input =
     foldl (\<lambda>acc (key, value). if value \<noteq> JNull then AList.update key value acc else acc) [] input"

definition mergedParams :: "jsobj \<Rightarrow> store_state \<Rightarrow> jsobj" where
  "mergedParams input st =
     assign (assign [] (case store_customQueryParams st of None \<Rightarrow> [] | Some params \<Rightarrow> params))
       (nonNullParams input)"

definition setQueryParams :: "jsobj \<Rightarrow> store_state \<Rightarrow> store_state \<times> store_effect list" where
  "setQueryParams input st =
     (let update = mergedParams input st;
          equal = (case store_customQueryParams st of
                     None \<Rightarrow> False
                   | Some params \<Rightarrow> deepEqual (JObj params) (JObj update))
      in if \<not> equal then (st\<lparr>store_customQueryParams := Some update\<rparr>, [SetState update])
         else (st, []))"

section \<open>ArgsSyncEngine\<close>

text \<open>
  What the handlers read of \<open>fullAPI.getCurrentStoryData()\<close>: \<open>data.id\<close>, the answer of
  \<open>isStory(data)\<close> and \<open>data.args\<close>.
\<close>

record item =
  item_id :: string
  item_isStory :: bool
  item_args :: "jsobj option"

text \<open>\<open>initialArgs\<close>: \<open>None\<close> for an identifier that reads as \<open>undefined\<close>.\<close>

type_synonym initial_args = "string \<Rightarrow> jsobj option"

datatype effect =
    UpdateStoryArgs item jsobj
  | QueryNavigate string bool

text \<open>
  The \<open>reduce\<close> of lines 201 and 213. Reading \<open>initialArgs[id][key]\<close> throws a TypeError
  when \<open>initialArgs[id]\<close> is \<open>undefined\<close>.
\<close>

fun diffArgs :: "jsobj option \<Rightarrow> jsobj \<Rightarrow> jsobj \<Rightarrow> js_error + jsobj" where
  "diffArgs baseline acc [] = Inr acc"
| "diffArgs baseline acc ((key, value) # rest) =
     (case baseline of
        None \<Rightarrow> Inl TypeError
      | Some b \<Rightarrow>
          diffArgs baseline
            (if \<not> deepEqual value (get b key) then AList.update key value acc else acc) rest)"

text \<open>Lines 205 to 207 and 217 to 219.\<close>

definition navigateWithArgs :: "string \<Rightarrow> jsobj \<Rightarrow> effect" where
  "navigateWithArgs currentPath customizedArgs =
     (let argsString = stringifyArgs customizedArgs;
          argsParam = (if length argsString \<noteq> 0 then ''&args='' @ argsString else [])
      in QueryNavigate (currentPath @ argsParam) True)"

definition onSetStories ::
  "qs_parse \<Rightarrow> item \<Rightarrow> store_state \<Rightarrow> initial_args \<Rightarrow> initial_args \<times> (js_error + effect list)" where
  "onSetStories parse data st initialArgs =
     (let storyArgs = (if item_isStory data then item_args data else None);
          initialArgs' = initialArgs(item_id data := storyArgs);
          param = getQueryParam ''args'' st;
          queryArgs = (if truthy param then param else JStr [])
      in (initialArgs',
          case queryArgs of
            JStr argsString \<Rightarrow>
              (let args = parseArgs parse argsString
               in Inr [UpdateStoryArgs data
                    (case storyArgs of
                       None \<Rightarrow> args
                     | Some sa \<Rightarrow> assign (assign [] sa) args)])
          | _ \<Rightarrow> Inl TypeError))"

definition onSetCurrentStory ::
  "item \<Rightarrow> string \<Rightarrow> initial_args \<Rightarrow> initial_args \<times> (js_error + effect list)" where
  "onSetCurrentStory data currentPath initialArgs =
     (let storyArgs = (if item_isStory data then item_args data else None);
          initialArgs' = initialArgs(item_id data :=
            (case initialArgs (item_id data) of
               None \<Rightarrow> storyArgs
             | Some b \<Rightarrow> Some b))
      in (initialArgs',
          case diffArgs (initialArgs' (item_id data)) []
                 (case storyArgs of None \<Rightarrow> [] | Some sa \<Rightarrow> sa) of
            Inl e \<Rightarrow> Inl e
          | Inr customizedArgs \<Rightarrow> Inr [navigateWithArgs currentPath customizedArgs]))"

definition onStoryArgsUpdated ::
  "string \<Rightarrow> jsobj \<Rightarrow> string \<Rightarrow> initial_args \<Rightarrow> initial_args \<times> (js_error + effect list)" where
  "onStoryArgsUpdated sid args currentPath initialArgs =
     (initialArgs,
      case diffArgs (initialArgs sid) [] args of
        Inl e \<Rightarrow> Inl e
      | Inr customizedArgs \<Rightarrow> Inr [navigateWithArgs currentPath customizedArgs])"

text \<open>
  The events of the channel, each with what its handler reads from its collaborators when
  it runs: the current story data, the store, the current path.
\<close>

datatype event =
    SET_STORIES item store_state
  | SET_CURRENT_STORY item string
  | STORY_ARGS_UPDATED string jsobj string

fun handle :: "qs_parse \<Rightarrow> event \<Rightarrow> initial_args \<Rightarrow> initial_args \<times> (js_error + effect list)" where
  "handle parse (SET_STORIES data st) initialArgs = onSetStories parse data st initialArgs"
| "handle parse (SET_CURRENT_STORY data p) initialArgs = onSetCurrentStory data p initialArgs"
| "handle parse (STORY_ARGS_UPDATED sid args p) initialArgs = onStoryArgsUpdated sid args p initialArgs"

text \<open>A handler that throws leaves what it had already written to \<open>initialArgs\<close>.\<close>

fun run :: "qs_parse \<Rightarrow> event list \<Rightarrow> initial_args \<Rightarrow> initial_args" where
  "run parse [] initialArgs = initialArgs"
| "run parse (ev # evs) initialArgs = run parse evs (fst (handle parse ev initialArgs))"

section \<open>Predicates of the statements\<close>


text \<open>No key and no string of the value, at any depth, contains one of the characters.\<close>

fun chars_free :: "char list \<Rightarrow> jsval \<Rightarrow> bool" where
  "chars_free cs (JStr s) = list_all (\<lambda>c. c \<notin> set cs) s"
| "chars_free cs (JArr xs) = list_all (chars_free cs) xs"
| "chars_free cs (JObj kvs) =
     list_all (\<lambda>(k, v). list_all (\<lambda>c. c \<notin> set cs) k \<and> chars_free cs v) kvs"
| "chars_free cs v = True"

text \<open>
  The segments \<open>qs.stringify\<close> emits for an object, and whether a value contributes any:
  \<open>undefined\<close> and a container without such a value inside contribute none.
\<close>

definition segments :: "jsobj \<Rightarrow> string list" where
  "segments obj = concat (map (\<lambda>(k, v). stringify_val v k) obj)"

fun has_segment :: "jsval \<Rightarrow> bool" where
  "has_segment JUndefined = False"
| "has_segment (JArr xs) = list_ex has_segment xs"
| "has_segment (JObj kvs) = list_ex (\<lambda>(k, v). has_segment v) kvs"
| "has_segment v = True"

text \<open>
  The top-level key a segment of an encoded fragment belongs to, and the keys of a fragment.
\<close>

definition segment_key :: "string \<Rightarrow> string" where
  "segment_key seg = takeWhile (\<lambda>c. c \<notin> set ''.[:='') seg"

definition fragment_keys :: "string \<Rightarrow> string list" where
  "fragment_keys fragment =
     (if fragment = [] then [] else map segment_key (split_on CHR '';'' fragment))"

text \<open>An event that makes the \<open>SET_STORIES\<close> handler run for the item \<open>i\<close>.\<close>

fun recaptures :: "string \<Rightarrow> event \<Rightarrow> bool" where
  "recaptures i (SET_STORIES data st) = (item_id data = i)"
| "recaptures i ev = False"

section \<open>Example inputs\<close>

text \<open>
  Concrete collaborators and states on which the theorems below are run: a router whose
  location is the parsed query itself, a composition function that joins kind and name
  with two dashes, and a sanitize function that returns a string unchanged.
\<close>

definition plain_ext :: "jsobj collaborators" where
  "plain_ext = \<lparr>queryFromLocation = (\<lambda>query. query),
           toId = (\<lambda>kind name. case (kind, name) of
                     (JStr k, JStr n) \<Rightarrow> Inr (k @ ''--'' @ n) | _ \<Rightarrow> Inl TypeError),
           sanitize = (\<lambda>kind. case kind of JStr k \<Rightarrow> Inr k | _ \<Rightarrow> Inl TypeError)\<rparr>"

definition args_of :: "jsobj \<Rightarrow> jsobj module_args" where
  "args_of query = \<lparr>state_location = query, state_path = ''/'', state_viewMode = JUndefined,
                     state_storyId = JUndefined\<rparr>"

definition memo0 :: parser_memo where
  "memo0 = \<lparr>prevParams = None, nextIdent = 0\<rparr>"

definition store1 :: store_state where
  "store1 = \<lparr>store_customQueryParams = Some [(''theme'', JStr ''dark'')], store_path = ''/story/a--b''\<rparr>"

definition story_x :: "jsobj \<Rightarrow> item" where
  "story_x args = \<lparr>item_id = ''x'', item_isStory = True, item_args = Some args\<rparr>"


section \<open>Properties of the string operations\<close>





lemma split_on_no_occurrence: "c \<notin> set p \<Longrightarrow> split_on c p = [p]"
  by (induction p) auto

lemma split_on_append_sep:
  "c \<notin> set p \<Longrightarrow> split_on c (p @ c # s) = p # split_on c s"
  by (induction p) auto

lemma split_on_join:
  "ps \<noteq> [] \<Longrightarrow> list_all (\<lambda>p. c \<notin> set p) ps \<Longrightarrow> split_on c (join c ps) = ps"
proof (induction c ps rule: join.induct)
  case (1 c)
  then show ?case by simp
next
  case (2 c p)
  then show ?case by (simp add: split_on_no_occurrence)
next
  case (3 c p q ps)
  then show ?case by (simp add: split_on_append_sep)
qed

lemma set_replace_first: "set (replace_first a b p) \<subseteq> insert b (set p)"
  by (induction p) auto


lemma set_join: "set (join c ps) \<subseteq> insert c (\<Union> (set ` set ps))"
  by (induction c ps rule: join.induct) auto








section \<open>ArgsCodec: the round trip\<close>





section \<open>Properties of deep equality\<close>

lemma get_member: "distinct (map fst kvs) \<Longrightarrow> (k, v) \<in> set kvs \<Longrightarrow> get kvs k = v"
  by (simp add: get_def)

lemma get_in_keys: "k \<in> fst ` set kvs \<Longrightarrow> (k, get kvs k) \<in> set kvs"
proof -
  assume "k \<in> fst ` set kvs"
  then obtain v where "map_of kvs k = Some v"
    by (metis domD dom_map_of_conv_image_fst)
  then show ?thesis by (simp add: get_def map_of_SomeD)
qed

lemma deepEqual_refl: "wf_val v \<Longrightarrow> deepEqual v v"
proof (induction v)
  case (JArr xs)
  then show ?case by (simp add: list_all_iff list_all2_same)
next
  case (JObj kvs)
  have "\<And>k v. (k, v) \<in> set kvs \<Longrightarrow> deepEqual v (get kvs k)"
  proof -
    fix k v assume kv: "(k, v) \<in> set kvs"
    then have "get kvs k = v" using JObj.prems by (simp add: get_member)
    moreover have "wf_val v" using kv JObj.prems by (auto simp: list_all_iff)
    moreover have "v \<in> Basic_BNFs.snds (k, v)" by simp
    ultimately show "deepEqual v (get kvs k)" using JObj.IH kv by metis
  qed
  then show ?case by (auto simp: list_all_iff intro: rev_image_eqI)
qed simp_all

lemma deepEqual_trans: "deepEqual a b \<Longrightarrow> deepEqual b c \<Longrightarrow> deepEqual a c"
proof (induction a arbitrary: b c)
  case (JArr xs)
  from JArr.prems(1) obtain ys where b: "b = JArr ys" by (cases b) auto
  from JArr.prems(2) b obtain zs where c: "c = JArr zs" by (cases c) auto
  have xy: "list_all2 deepEqual xs ys" and yz: "list_all2 deepEqual ys zs"
    using JArr.prems b c by auto
  have "list_all2 deepEqual xs zs"
  proof (rule list_all2_all_nthI)
    show "length xs = length zs"
      using xy yz by (simp add: list_all2_lengthD)
  next
    fix n assume n: "n < length xs"
    then have "deepEqual (xs ! n) (ys ! n)" using xy by (simp add: list_all2_nthD)
    moreover have "deepEqual (ys ! n) (zs ! n)"
      using yz n xy by (simp add: list_all2_nthD2 list_all2_lengthD)
    ultimately show "deepEqual (xs ! n) (zs ! n)"
      using JArr.IH n nth_mem by blast
  qed
  then show ?case using b c by simp
next
  case (JObj xs)
  from JObj.prems(1) obtain ys where b: "b = JObj ys" by (cases b) auto
  from JObj.prems(2) b obtain zs where c: "c = JObj zs" by (cases c) auto
  have xy: "length xs = length ys" "\<And>k v. (k, v) \<in> set xs \<Longrightarrow> k \<in> fst ` set ys"
      "\<And>k v. (k, v) \<in> set xs \<Longrightarrow> deepEqual v (get ys k)"
    using JObj.prems(1) b by (auto simp: list_all_iff)
  have yz: "length ys = length zs" "\<And>k v. (k, v) \<in> set ys \<Longrightarrow> k \<in> fst ` set zs"
      "\<And>k v. (k, v) \<in> set ys \<Longrightarrow> deepEqual v (get zs k)"
    using JObj.prems(2) b c by (auto simp: list_all_iff)
  have "\<And>k v. (k, v) \<in> set xs \<Longrightarrow> k \<in> fst ` set zs \<and> deepEqual v (get zs k)"
  proof -
    fix k v assume kv: "(k, v) \<in> set xs"
    then have mem: "(k, get ys k) \<in> set ys" using xy(2) get_in_keys by blast
    have "deepEqual v (get ys k)" using kv xy(3) by blast
    moreover have "deepEqual (get ys k) (get zs k)" using mem yz(3) by blast
    moreover have "v \<in> Basic_BNFs.snds (k, v)" by simp
    ultimately have "deepEqual v (get zs k)" using JObj.IH kv by blast
    then show "k \<in> fst ` set zs \<and> deepEqual v (get zs k)" using mem yz(2) by blast
  qed
  then show ?case using b c xy(1) yz(1) by (auto simp: list_all_iff)
qed (auto elim: deepEqual.elims)

section \<open>Properties of the object spread\<close>

lemma update_fresh_key: "k \<notin> fst ` set al \<Longrightarrow> AList.update k v al = al @ [(k, v)]"
  by (induction al) auto

lemma assign_Nil [simp]: "assign target [] = target"
  by (simp add: assign_def)

lemma assign_Cons [simp]: "assign target ((k, v) # src) = assign (AList.update k v target) src"
  by (simp add: assign_def)

lemma assign_fresh:
  "distinct (map fst (target @ src)) \<Longrightarrow> assign target src = target @ src"
proof (induction src arbitrary: target)
  case Nil
  then show ?case by simp
next
  case (Cons p src)
  obtain k v where p: "p = (k, v)" by (cases p)
  have "k \<notin> fst ` set target" using Cons.prems p by auto
  then have upd: "AList.update k v target = target @ [(k, v)]" by (rule update_fresh_key)
  have "distinct (map fst ((target @ [(k, v)]) @ src))" using Cons.prems p by simp
  then have "assign (target @ [(k, v)]) src = (target @ [(k, v)]) @ src" by (rule Cons.IH)
  then show ?case using p upd by simp
qed

lemma assign_copy: "distinct (map fst obj) \<Longrightarrow> assign [] obj = obj"
  using assign_fresh [of "[]" obj] by simp

lemma distinct_assign: "distinct (map fst target) \<Longrightarrow> distinct (map fst (assign target src))"
proof (induction src arbitrary: target)
  case Nil
  then show ?case by simp
next
  case (Cons p src)
  then show ?case by (cases p) (simp add: distinct_update)
qed

lemma set_update_subset: "set (AList.update k v al) \<subseteq> insert (k, v) (set al)"
  by (induction al) auto

lemma set_assign_subset: "set (assign target src) \<subseteq> set target \<union> set src"
proof (induction src arbitrary: target)
  case Nil
  then show ?case by simp
next
  case (Cons p src)
  obtain k v where p: "p = (k, v)" by (cases p)
  have "set (assign (AList.update k v target) src) \<subseteq> set (AList.update k v target) \<union> set src"
    by (rule Cons.IH)
  then show ?case using p set_update_subset [of k v target] by auto
qed

lemma map_of_assign_other:
  "k \<notin> fst ` set src \<Longrightarrow> map_of (assign target src) k = map_of target k"
proof (induction src arbitrary: target)
  case Nil
  then show ?case by simp
next
  case (Cons p src)
  obtain k' v' where p: "p = (k', v')" by (cases p)
  have "k \<noteq> k'" and "k \<notin> fst ` set src" using Cons.prems p by auto
  then show ?case using Cons.IH [of "AList.update k' v' target"] p
    by (simp add: update_conv')
qed

lemma map_of_assign_member:
  "distinct (map fst src) \<Longrightarrow> (k, v) \<in> set src \<Longrightarrow> map_of (assign target src) k = Some v"
proof (induction src arbitrary: target)
  case Nil
  then show ?case by simp
next
  case (Cons p src)
  obtain k' v' where p: "p = (k', v')" by (cases p)
  show ?case
  proof (cases "(k, v) \<in> set src")
    case True
    then show ?thesis using Cons p by simp
  next
    case False
    then have kv: "k = k'" "v = v'" using Cons.prems(2) p by auto
    then have "k \<notin> fst ` set src" using Cons.prems(1) p by auto
    then have "map_of (assign (AList.update k' v' target) src) k = map_of (AList.update k' v' target) k"
      by (rule map_of_assign_other)
    then show ?thesis using p kv by (simp add: update_conv')
  qed
qed

lemma assign_unchanged:
  "list_all (\<lambda>(k, v). map_of target k = Some v) src \<Longrightarrow> assign target src = target"
proof (induction src)
  case Nil
  then show ?case by simp
next
  case (Cons p src)
  then show ?case by (cases p) (simp add: update_triv)
qed

lemma assign_idem:
  assumes "distinct (map fst src)"
  shows "assign (assign target src) src = assign target src"
proof (rule assign_unchanged)
  show "list_all (\<lambda>(k, v). map_of (assign target src) k = Some v) src"
    using assms by (auto simp: list_all_iff map_of_assign_member)
qed

lemma nonNull_step:
  "foldl (\<lambda>acc (key, value). if value \<noteq> JNull then AList.update key value acc else acc) acc input
   = assign acc (filter (\<lambda>(k, v). v \<noteq> JNull) input)"
  by (induction input arbitrary: acc) (auto simp: assign_def)

lemma nonNullParams_filter: "nonNullParams input = assign [] (filter (\<lambda>(k, v). v \<noteq> JNull) input)"
  by (simp add: nonNullParams_def nonNull_step)

lemma distinct_nonNullParams: "distinct (map fst (nonNullParams input))"
  by (simp add: nonNullParams_filter distinct_assign)

lemma nonNullParams_all_null:
  "list_all (\<lambda>(k, v). v = JNull) input \<Longrightarrow> nonNullParams input = []"
proof -
  assume "list_all (\<lambda>(k, v). v = JNull) input"
  then have "filter (\<lambda>(k, v). v \<noteq> JNull) input = []"
    by (auto simp: list_all_iff filter_empty_conv)
  then show ?thesis by (simp add: nonNullParams_filter)
qed

lemma wf_values_assign:
  "list_all (\<lambda>(k, v). wf_val v) target \<Longrightarrow> list_all (\<lambda>(k, v). wf_val v) src \<Longrightarrow>
   list_all (\<lambda>(k, v). wf_val v) (assign target src)"
  using set_assign_subset [of target src] by (fastforce simp: list_all_iff)

lemma wf_values_nonNullParams:
  "list_all (\<lambda>(k, v). wf_val v) input \<Longrightarrow> list_all (\<lambda>(k, v). wf_val v) (nonNullParams input)"
  using set_assign_subset [of "[]" "filter (\<lambda>(k, v). v \<noteq> JNull) input"]
  by (fastforce simp: list_all_iff nonNullParams_filter)

lemma wf_obj_iff: "wf_val (JObj kvs) \<longleftrightarrow> distinct (map fst kvs) \<and> list_all (\<lambda>(k, v). wf_val v) kvs"
  by simp

lemma keys_nonNullParams: "fst ` set (nonNullParams input) \<subseteq> fst ` set (filter (\<lambda>(k, v). v \<noteq> JNull) input)"
  using set_assign_subset [of "[]" "filter (\<lambda>(k, v). v \<noteq> JNull) input"]
  by (simp add: nonNullParams_filter image_mono)

lemma mergedParams_stored:
  "store_customQueryParams st = Some params \<Longrightarrow> distinct (map fst params) \<Longrightarrow>
   mergedParams input st = assign params (nonNullParams input)"
  by (simp add: mergedParams_def assign_copy)

lemma wf_mergedParams:
  assumes "list_all (\<lambda>(k, v). wf_val v) input"
    and "case store_customQueryParams st of None \<Rightarrow> True | Some params \<Rightarrow> wf_val (JObj params)"
  shows "wf_val (JObj (mergedParams input st))"
proof -
  let ?stored = "case store_customQueryParams st of None \<Rightarrow> [] | Some params \<Rightarrow> params"
  have "list_all (\<lambda>(k, v). wf_val v) ?stored"
    using assms(2) by (cases "store_customQueryParams st") auto
  then have copy: "list_all (\<lambda>(k, v). wf_val v) (assign [] ?stored)"
    by (intro wf_values_assign) simp_all
  have "list_all (\<lambda>(k, v). wf_val v) (nonNullParams input)"
    using assms(1) by (rule wf_values_nonNullParams)
  with copy have "list_all (\<lambda>(k, v). wf_val v) (mergedParams input st)"
    unfolding mergedParams_def by (rule wf_values_assign)
  moreover have "distinct (map fst (mergedParams input st))"
    unfolding mergedParams_def by (intro distinct_assign) simp
  ultimately show ?thesis by simp
qed

lemma mergedParams_again:
  "mergedParams input (st\<lparr>store_customQueryParams := Some (mergedParams input st)\<rparr>)
   = mergedParams input st"
proof -
  let ?u = "mergedParams input st"
  have d: "distinct (map fst ?u)"
    unfolding mergedParams_def by (intro distinct_assign) simp
  have "mergedParams input (st\<lparr>store_customQueryParams := Some ?u\<rparr>) = assign ?u (nonNullParams input)"
    using d by (simp add: mergedParams_def assign_copy)
  also have "\<dots> = ?u"
    unfolding mergedParams_def by (rule assign_idem) (rule distinct_nonNullParams)
  finally show ?thesis .
qed

section \<open>QueryLocationParser: layout, identifier, memo\<close>

lemma initialUrlSupport_layout:
  "initialUrlSupport ext args memo = Inr (r, memo') \<Longrightarrow>
   layout r = layoutAdditions (queryFromLocation ext (state_location args))"
  by (auto simp: initialUrlSupport_def Let_def split: sum.splits prod.splits)

lemma initialUrlSupport_storyId:
  "initialUrlSupport ext args memo = Inr (r, memo') \<Longrightarrow>
   resolveStoryId ext (state_storyId args) (queryFromLocation ext (state_location args)) = Inr (storyId r)"
  by (auto simp: initialUrlSupport_def Let_def split: sum.splits prod.splits)

lemma initialUrlSupport_params:
  "initialUrlSupport ext args memo = Inr (r, memo') \<Longrightarrow>
   (customQueryParams r, memo') = memoParams memo (otherParams (queryFromLocation ext (state_location args)))"
  by (auto simp: initialUrlSupport_def Let_def split: sum.splits prod.splits)

text \<open>
  C2 (as amended). The legacy rules run after the rules of the current scheme, so where
  the two can disagree the legacy key decides: \<open>panelRight=1\<close> gives the panel position
  \<open>right\<close> whatever \<open>panel\<close> says, and \<open>panel\<close> decides only when \<open>panelRight\<close> is
  not \<open>1\<close>. For \<open>showPanel\<close> (\<open>panel=0\<close>, \<open>addons=0\<close>) and \<open>showNav\<close> (\<open>nav=0\<close>,
  \<open>stories=0\<close>) either key can only set the field to false, so the two never disagree.
\<close>

theorem legacy_key_evaluated_last:
  assumes "initialUrlSupport ext args memo = Inr (r, memo')"
    and "query = queryFromLocation ext (state_location args)"
  shows "panelPosition (layout r) =
           (if get query ''panelRight'' = JStr ''1'' then Some (JStr ''right'')
            else if get query ''panel'' = JStr ''right'' \<or> get query ''panel'' = JStr ''bottom''
              then Some (get query ''panel'')
            else None) \<and>
         showPanel (layout r) =
           (if get query ''addons'' = JStr ''0'' \<or> get query ''panel'' = JStr ''0'' then Some False
            else None) \<and>
         showNav (layout r) =
           (if get query ''stories'' = JStr ''0'' \<or> get query ''nav'' = JStr ''0'' then Some False
            else None)"
  using assms by (auto simp: initialUrlSupport_layout layoutAdditions_def Let_def)

theorem legacy_key_evaluated_last_witness:
  "(case initialUrlSupport plain_ext (args_of [(''panel'', JStr ''bottom''), (''addons'', JStr ''0'')]) memo0 of
      Inl e \<Rightarrow> False
    | Inr (r, m) \<Rightarrow> panelPosition (layout r) = Some (JStr ''bottom'') \<and>
        showPanel (layout r) = Some False \<and> showNav (layout r) = None)"
proof -
  let ?q = "[(''panel'', JStr ''bottom''), (''addons'', JStr ''0'')]"
  obtain r m where run: "initialUrlSupport plain_ext (args_of ?q) memo0 = Inr (r, m)"
    by (simp add: initialUrlSupport_def plain_ext_def args_of_def memo0_def resolveStoryId_def
        memoParams_def get_def Let_def)
  have q: "?q = queryFromLocation plain_ext (state_location (args_of ?q))"
    by (simp add: plain_ext_def args_of_def)
  show ?thesis
    using legacy_key_evaluated_last [OF run q] run by (simp add: get_def)
qed

text \<open>
  C2 as stated fails: with \<open>panel=bottom\<close> and \<open>panelRight=1\<close> the layout takes the
  position of the legacy key.
\<close>

theorem panel_conflict_counterexample:
  "(case initialUrlSupport plain_ext (args_of [(''panel'', JStr ''bottom''), (''panelRight'', JStr ''1'')]) memo0 of
      Inl e \<Rightarrow> False
    | Inr (r, m) \<Rightarrow> panelPosition (layout r) = Some (JStr ''right'') \<and>
        panelPosition (layout r) \<noteq> Some (JStr ''bottom''))"
  by (simp add: initialUrlSupport_def plain_ext_def args_of_def memo0_def resolveStoryId_def
      memoParams_def layoutAdditions_def get_def Let_def)

text \<open>
  C9 (as amended). An identifier of the location that is not empty is returned verbatim.
  Without one: when \<open>selectedKind\<close> and \<open>selectedStory\<close> both have a truthy (non-empty)
  value the identifier is what \<open>toId\<close> returns for them; when only \<open>selectedKind\<close> has,
  it is what \<open>sanitize\<close> returns for it; otherwise the identifier stays as the location
  gave it, unset.
\<close>

theorem story_id_resolution:
  assumes "initialUrlSupport ext args memo = Inr (r, memo')"
    and "query = queryFromLocation ext (state_location args)"
    and "kind = get query ''selectedKind''" and "story = get query ''selectedStory''"
  shows "(truthy (state_storyId args) \<longrightarrow> storyId r = state_storyId args) \<and>
         (\<not> truthy (state_storyId args) \<and> truthy kind \<and> truthy story \<longrightarrow>
            (\<exists>i. toId ext kind story = Inr i \<and> storyId r = JStr i)) \<and>
         (\<not> truthy (state_storyId args) \<and> truthy kind \<and> \<not> truthy story \<longrightarrow>
            (\<exists>i. sanitize ext kind = Inr i \<and> storyId r = JStr i)) \<and>
         (\<not> truthy (state_storyId args) \<and> \<not> truthy kind \<longrightarrow> storyId r = state_storyId args)"
proof -
  have res: "resolveStoryId ext (state_storyId args) query = Inr (storyId r)"
    using initialUrlSupport_storyId [OF assms(1)] assms(2) by simp
  have verbatim: "truthy (state_storyId args) \<longrightarrow> storyId r = state_storyId args"
    using res by (auto simp: resolveStoryId_def Let_def split: if_splits)
  have both: "\<not> truthy (state_storyId args) \<and> truthy kind \<and> truthy story \<longrightarrow>
      (\<exists>i. toId ext kind story = Inr i \<and> storyId r = JStr i)"
    using res assms(3,4) by (cases "toId ext kind story") (auto simp: resolveStoryId_def Let_def split: if_splits)
  have only_kind: "\<not> truthy (state_storyId args) \<and> truthy kind \<and> \<not> truthy story \<longrightarrow>
      (\<exists>i. sanitize ext kind = Inr i \<and> storyId r = JStr i)"
    using res assms(3,4) by (cases "sanitize ext kind") (auto simp: resolveStoryId_def Let_def split: if_splits)
  have unset: "\<not> truthy (state_storyId args) \<and> \<not> truthy kind \<longrightarrow> storyId r = state_storyId args"
    using res assms(3,4) by (auto simp: resolveStoryId_def Let_def split: if_splits)
  show ?thesis using verbatim both only_kind unset by blast
qed

theorem story_id_resolution_witness:
  "(case initialUrlSupport plain_ext
           (args_of [(''selectedKind'', JStr ''button''), (''selectedStory'', JStr ''primary'')]) memo0 of
      Inl e \<Rightarrow> False
    | Inr (r, m) \<Rightarrow> storyId r = JStr ''button--primary'')"
proof -
  let ?q = "[(''selectedKind'', JStr ''button''), (''selectedStory'', JStr ''primary'')]"
  obtain r m where run: "initialUrlSupport plain_ext (args_of ?q) memo0 = Inr (r, m)"
    by (simp add: initialUrlSupport_def plain_ext_def args_of_def memo0_def resolveStoryId_def
        memoParams_def get_def Let_def)
  have q: "?q = queryFromLocation plain_ext (state_location (args_of ?q))"
    by (simp add: plain_ext_def args_of_def)
  show ?thesis
    using story_id_resolution [OF run q refl refl] run
    by (simp add: get_def args_of_def plain_ext_def)
qed

text \<open>
  C9 as stated fails for a key that is present with an empty value: for
  \<open>?selectedKind=button&selectedStory=\<close> both keys are in the query, and the identifier is
  that of \<open>sanitize\<close> on the kind, not the composition of kind and name.
\<close>

theorem empty_story_counterexample:
  "map_of [(''selectedKind'', JStr ''button''), (''selectedStory'', JStr '''')] ''selectedStory''
     = Some (JStr '''') \<and>
   (case initialUrlSupport plain_ext
           (args_of [(''selectedKind'', JStr ''button''), (''selectedStory'', JStr '''')]) memo0 of
      Inl e \<Rightarrow> False
    | Inr (r, m) \<Rightarrow> storyId r = JStr ''button'' \<and> 
        toId plain_ext (JStr ''button'') (JStr '''') = Inr ''button--'')"
  by (simp add: initialUrlSupport_def plain_ext_def args_of_def memo0_def resolveStoryId_def
      memoParams_def get_def Let_def)

lemma memoParams_result:
  "memoParams memo other = (p, memo') \<Longrightarrow>
   prevParams memo' = Some p \<and> (entries p = other \<or> deepEqual (JObj (entries p)) (JObj other))"
  by (auto simp: memoParams_def Let_def split: option.splits if_splits)

lemma memoParams_hit:
  "prevParams memo = Some p \<Longrightarrow> deepEqual (JObj (entries p)) (JObj other) \<Longrightarrow>
   fst (memoParams memo other) = p"
  by (simp add: memoParams_def Let_def)

lemma memoParams_slot: "prevParams (snd (memoParams memo other)) = Some (fst (memoParams memo other))"
  by (simp add: memoParams_def Let_def)

text \<open>
  C6. When two successive calls of the parser both return and the passthrough maps they
  extract are deep-equal, the second call returns the very object the first returned
  (same identity, same entries), and the single slot \<open>prevParams\<close> holds that result.
\<close>

theorem passthrough_reference_stable:
  assumes "initialUrlSupport ext args1 memo = Inr (r1, memo1)"
    and "initialUrlSupport ext args2 memo1 = Inr (r2, memo2)"
    and "deepEqual (JObj (otherParams (queryFromLocation ext (state_location args1))))
           (JObj (otherParams (queryFromLocation ext (state_location args2))))"
  shows "customQueryParams r2 = customQueryParams r1 \<and>
         prevParams memo2 = Some (customQueryParams r2)"
proof -
  let ?o1 = "otherParams (queryFromLocation ext (state_location args1))"
  let ?o2 = "otherParams (queryFromLocation ext (state_location args2))"
  have first: "memoParams memo ?o1 = (customQueryParams r1, memo1)"
    using initialUrlSupport_params [OF assms(1)] by simp
  have second: "memoParams memo1 ?o2 = (customQueryParams r2, memo2)"
    using initialUrlSupport_params [OF assms(2)] by simp
  have slot: "prevParams memo1 = Some (customQueryParams r1)"
    and "entries (customQueryParams r1) = ?o1 \<or>
         deepEqual (JObj (entries (customQueryParams r1))) (JObj ?o1)"
    using memoParams_result [OF first] by simp_all
  then have "deepEqual (JObj (entries (customQueryParams r1))) (JObj ?o2)"
    using assms(3) deepEqual_trans by metis
  with slot have "fst (memoParams memo1 ?o2) = customQueryParams r1"
    by (rule memoParams_hit)
  then have "customQueryParams r2 = customQueryParams r1" using second by simp
  moreover have "prevParams memo2 = Some (customQueryParams r2)"
    using memoParams_slot [of memo1 ?o2] second by simp
  ultimately show ?thesis by simp
qed

theorem passthrough_reference_stable_witness:
  "(case initialUrlSupport plain_ext (args_of [(''full'', JStr ''1''), (''theme'', JStr ''dark'')]) memo0 of
      Inl e \<Rightarrow> False
    | Inr (r1, memo1) \<Rightarrow>
        (case initialUrlSupport plain_ext (args_of [(''nav'', JStr ''0''), (''theme'', JStr ''dark'')]) memo1 of
           Inl e \<Rightarrow> False
         | Inr (r2, memo2) \<Rightarrow>
             customQueryParams r1 = \<lparr>ident = 0, entries = [(''theme'', JStr ''dark'')]\<rparr> \<and>
             customQueryParams r2 = customQueryParams r1 \<and> nextIdent memo2 = 2))"
proof -
  let ?q1 = "[(''full'', JStr ''1''), (''theme'', JStr ''dark'')]"
  let ?q2 = "[(''nav'', JStr ''0''), (''theme'', JStr ''dark'')]"
  obtain r1 memo1 where run1: "initialUrlSupport plain_ext (args_of ?q1) memo0 = Inr (r1, memo1)"
    by (simp add: initialUrlSupport_def plain_ext_def args_of_def memo0_def resolveStoryId_def
        memoParams_def get_def Let_def)
  have r1: "customQueryParams r1 = \<lparr>ident = 0, entries = [(''theme'', JStr ''dark'')]\<rparr>"
    and m1: "nextIdent memo1 = 1"
    using run1
    by (auto simp: initialUrlSupport_def plain_ext_def args_of_def memo0_def resolveStoryId_def
        memoParams_def get_def Let_def otherParams_def knownKeys_def)
  obtain r2 memo2 where run2: "initialUrlSupport plain_ext (args_of ?q2) memo1 = Inr (r2, memo2)"
    by (simp add: initialUrlSupport_def plain_ext_def args_of_def resolveStoryId_def
        memoParams_def get_def Let_def split: prod.splits)
  have m2: "nextIdent memo2 = 2"
    using run2 m1
    by (auto simp: initialUrlSupport_def plain_ext_def args_of_def resolveStoryId_def
        memoParams_def get_def Let_def split: prod.splits)
  have eq: "deepEqual (JObj (otherParams (queryFromLocation plain_ext (state_location (args_of ?q1)))))
           (JObj (otherParams (queryFromLocation plain_ext (state_location (args_of ?q2)))))"
    by (simp add: plain_ext_def args_of_def otherParams_def knownKeys_def get_def)
  show ?thesis
    using passthrough_reference_stable [OF run1 run2 eq] run1 run2 r1 m2 by simp
qed

section \<open>QueryParamStore: the equality gate\<close>

text \<open>
  C7. With a stored passthrough map, an input whose entries are all \<open>null\<close> leaves the
  state as it is and commits nothing; and in any input a key given as \<open>null\<close> is skipped by
  the merge: the merged map has under that key what the stored map has, so \<open>null\<close> never
  deletes.
\<close>

theorem null_input_is_noop:
  "(store_customQueryParams st = Some params \<and> wf_val (JObj params) \<and>
      list_all (\<lambda>(k, v). v = JNull) input
    \<longrightarrow> setQueryParams input st = (st, [])) \<and>
   (store_customQueryParams st = Some params \<and> wf_val (JObj params) \<and>
      wf_val (JObj input) \<and> (key, JNull) \<in> set input
    \<longrightarrow> get (mergedParams input st) key = get params key)"
proof (intro conjI impI)
  assume a: "store_customQueryParams st = Some params \<and> wf_val (JObj params) \<and>
      list_all (\<lambda>(k, v). v = JNull) input"
  then have "nonNullParams input = []" by (simp add: nonNullParams_all_null)
  then have "mergedParams input st = params"
    using a by (simp add: mergedParams_stored)
  moreover have "deepEqual (JObj params) (JObj params)"
    using a by (intro deepEqual_refl) simp
  ultimately show "setQueryParams input st = (st, [])"
    using a by (simp add: setQueryParams_def)
next
  assume a: "store_customQueryParams st = Some params \<and> wf_val (JObj params) \<and>
      wf_val (JObj input) \<and> (key, JNull) \<in> set input"
  have "key \<notin> fst ` set (filter (\<lambda>(k, v). v \<noteq> JNull) input)"
  proof
    assume "key \<in> fst ` set (filter (\<lambda>(k, v). v \<noteq> JNull) input)"
    then obtain v where "(key, v) \<in> set input" and "v \<noteq> JNull" by auto
    moreover have "distinct (map fst input)" using a by simp
    ultimately show False using a by (metis eq_key_imp_eq_value)
  qed
  then have "key \<notin> fst ` set (nonNullParams input)"
    using keys_nonNullParams by blast
  then have "map_of (assign params (nonNullParams input)) key = map_of params key"
    by (rule map_of_assign_other)
  then show "get (mergedParams input st) key = get params key"
    using a by (simp add: mergedParams_stored get_def)
qed

theorem null_input_is_noop_witness:
  "setQueryParams [(''x'', JNull)] store1 = (store1, []) \<and>
   get (mergedParams [(''theme'', JNull), (''y'', JStr ''1'')] store1) ''theme'' = JStr ''dark''"
  using null_input_is_noop [of store1 "[(''theme'', JStr ''dark'')]" "[(''x'', JNull)]"]
    null_input_is_noop [of store1 "[(''theme'', JStr ''dark'')]" "[(''theme'', JNull), (''y'', JStr ''1'')]" "''theme''"]
  by (simp add: store1_def get_def)

text \<open>
  C8. Whenever the merged map is deep-equal to the stored one the call changes nothing and
  commits nothing; and of two calls in a row with the same input the second is always
  such a call, so at most the first commits.
\<close>

theorem repeated_set_is_noop:
  "(store_customQueryParams st = Some params \<and>
      deepEqual (JObj params) (JObj (mergedParams input st))
    \<longrightarrow> setQueryParams input st = (st, [])) \<and>
   (wf_val (JObj input) \<and>
      (case store_customQueryParams st of None \<Rightarrow> True | Some stored \<Rightarrow> wf_val (JObj stored))
    \<longrightarrow> setQueryParams input (fst (setQueryParams input st))
          = (fst (setQueryParams input st), []))"
proof (intro conjI impI)
  assume "store_customQueryParams st = Some params \<and>
      deepEqual (JObj params) (JObj (mergedParams input st))"
  then show "setQueryParams input st = (st, [])"
    by (simp add: setQueryParams_def)
next
  assume a: "wf_val (JObj input) \<and>
      (case store_customQueryParams st of None \<Rightarrow> True | Some stored \<Rightarrow> wf_val (JObj stored))"
  let ?u = "mergedParams input st"
  let ?st1 = "st\<lparr>store_customQueryParams := Some ?u\<rparr>"
  show "setQueryParams input (fst (setQueryParams input st)) = (fst (setQueryParams input st), [])"
  proof (cases "setQueryParams input st = (st, [])")
    case True
    then show ?thesis by simp
  next
    case False
    then have first: "setQueryParams input st = (?st1, [SetState ?u])"
      by (auto simp: setQueryParams_def Let_def split: if_splits)
    have "wf_val (JObj ?u)" using a by (intro wf_mergedParams) simp_all
    then have "deepEqual (JObj ?u) (JObj ?u)" by (rule deepEqual_refl)
    then have "setQueryParams input ?st1 = (?st1, [])"
      by (simp add: setQueryParams_def mergedParams_again)
    then show ?thesis using first by simp
  qed
qed

theorem repeated_set_is_noop_witness:
  "setQueryParams [(''y'', JStr ''1'')] store1
     = (store1\<lparr>store_customQueryParams := Some [(''theme'', JStr ''dark''), (''y'', JStr ''1'')]\<rparr>,
        [SetState [(''theme'', JStr ''dark''), (''y'', JStr ''1'')]]) \<and>
   setQueryParams [(''y'', JStr ''1'')] (fst (setQueryParams [(''y'', JStr ''1'')] store1))
     = (fst (setQueryParams [(''y'', JStr ''1'')] store1), [])"
  using repeated_set_is_noop [of store1 "[(''theme'', JStr ''dark'')]" "[(''y'', JStr ''1'')]"]
  by (simp add: store1_def setQueryParams_def mergedParams_def nonNullParams_def get_def Let_def)

section \<open>ArgsSyncEngine: baseline and diff\<close>

lemma diffArgs_filter:
  "distinct (map fst args) \<Longrightarrow> fst ` set acc \<inter> fst ` set args = {} \<Longrightarrow>
   diffArgs (Some b) acc args = Inr (acc @ filter (\<lambda>(k, v). \<not> deepEqual v (get b k)) args)"
proof (induction args arbitrary: acc)
  case Nil
  then show ?case by simp
next
  case (Cons p args)
  obtain k v where p: "p = (k, v)" by (cases p)
  have fresh: "k \<notin> fst ` set acc" and rest: "k \<notin> fst ` set args"
    and d: "distinct (map fst args)" and disj: "fst ` set acc \<inter> fst ` set args = {}"
    using Cons.prems p by auto
  show ?case
  proof (cases "deepEqual v (get b k)")
    case True
    then show ?thesis using Cons.IH [OF d disj] p by simp
  next
    case False
    have "fst ` set (acc @ [(k, v)]) \<inter> fst ` set args = {}"
      using disj rest by auto
    then have "diffArgs (Some b) (acc @ [(k, v)]) args
        = Inr ((acc @ [(k, v)]) @ filter (\<lambda>(k, v). \<not> deepEqual v (get b k)) args)"
      using Cons.IH [OF d] by blast
    then show ?thesis using False p update_fresh_key [OF fresh] by simp
  qed
qed

lemma diffArgs_baseline:
  "distinct (map fst args) \<Longrightarrow>
   diffArgs (Some b) [] args = Inr (filter (\<lambda>(k, v). \<not> deepEqual v (get b k)) args)"
  using diffArgs_filter [of args "[]" b] by simp

lemma navigateWithArgs_empty: "navigateWithArgs currentPath [] = QueryNavigate currentPath True"
  by (simp add: navigateWithArgs_def stringifyArgs_def qs_stringify_def)

lemma digit_char_not_semi: "d < 10 \<Longrightarrow> digit_char d \<noteq> CHR '';''"
proof -
  assume "d < 10"
  then have "d \<in> {0,1,2,3,4,5,6,7,8,9}" by auto
  then show ?thesis by (auto simp: digit_char_def)
qed

lemma show_nat_no_semi: "CHR '';'' \<notin> set (show_nat n)"
proof (induction n rule: show_nat.induct)
  case (1 n)
  show ?case
  proof (cases "n < 10")
    case True
    then show ?thesis using digit_char_not_semi [of n] by (subst show_nat.simps) auto
  next
    case False
    then have "CHR '';'' \<notin> set (show_nat (n div 10))" using 1 by simp
    moreover have "digit_char (n mod 10) \<noteq> CHR '';''" by (simp add: digit_char_not_semi)
    ultimately show ?thesis using False by (subst show_nat.simps) auto
  qed
qed

lemma show_int_no_semi: "CHR '';'' \<notin> set (show_int i)"
  using show_nat_no_semi by (simp add: show_int_def)

lemma stringify_val_no_semi:
  "chars_free cs v \<Longrightarrow> CHR '';'' \<in> set cs \<Longrightarrow> CHR '';'' \<notin> set prefix \<Longrightarrow>
   seg \<in> set (stringify_val v prefix) \<Longrightarrow> CHR '';'' \<notin> set seg"
proof (induction v prefix arbitrary: seg rule: stringify_val.induct)
  case (6 xs prefix)
  from "6.prems"(4) obtain i x where ix: "(i, x) \<in> set (enumerate 0 xs)"
    and seg: "seg \<in> set (stringify_val x (prefix @ ''['' @ show_nat i @ '']''))"
    by auto
  have "x \<in> set xs" using ix by (auto simp: in_set_enumerate_eq)
  then have "chars_free cs x" using "6.prems"(1) by (simp add: list_all_iff)
  moreover have "CHR '';'' \<notin> set (prefix @ ''['' @ show_nat i @ '']'')"
    using "6.prems"(3) show_nat_no_semi by simp
  ultimately show ?case using "6.IH" [OF ix refl _ "6.prems"(2) _ seg] by simp
next
  case (7 kvs prefix)
  from "7.prems"(4) obtain k v where kv: "(k, v) \<in> set kvs"
    and seg: "seg \<in> set (stringify_val v (prefix @ ''.'' @ k))"
    by auto
  have "chars_free cs v" and "list_all (\<lambda>c. c \<notin> set cs) k"
    using kv "7.prems"(1) by (auto simp: list_all_iff)
  moreover have "CHR '';'' \<notin> set (prefix @ ''.'' @ k)"
    using "7.prems"(2,3) \<open>list_all (\<lambda>c. c \<notin> set cs) k\<close> by (auto simp: list_all_iff)
  ultimately show ?case using "7.IH" [OF kv refl _ "7.prems"(2) _ seg] by simp
qed (auto simp: list_all_iff show_int_no_semi)

lemma stringify_val_shape:
  "seg \<in> set (stringify_val v prefix) \<Longrightarrow>
   \<exists>c r. seg = prefix @ c # r \<and> c \<in> set ''.[=''"
proof (induction v prefix arbitrary: seg rule: stringify_val.induct)
  case (6 xs prefix)
  from "6.prems" obtain i x where ix: "(i, x) \<in> set (enumerate 0 xs)"
    and seg: "seg \<in> set (stringify_val x (prefix @ ''['' @ show_nat i @ '']''))"
    by auto
  from "6.IH" [OF ix refl seg] obtain c r where "seg = (prefix @ ''['' @ show_nat i @ '']'') @ c # r"
    by blast
  then have "seg = prefix @ CHR ''['' # (show_nat i @ '']'' @ c # r)" by simp
  then show ?case by auto
next
  case (7 kvs prefix)
  from "7.prems" obtain k v where kv: "(k, v) \<in> set kvs"
    and seg: "seg \<in> set (stringify_val v (prefix @ ''.'' @ k))"
    by auto
  from "7.IH" [OF kv refl seg] obtain c r where "seg = (prefix @ ''.'' @ k) @ c # r"
    by blast
  then have "seg = prefix @ CHR ''.'' # (k @ c # r)" by simp
  then show ?case by auto
qed auto

lemma stringify_val_has_segment: "stringify_val v prefix \<noteq> [] \<longleftrightarrow> has_segment v"
proof (induction v prefix rule: stringify_val.induct)
  case (6 xs prefix)
  have "stringify_val (JArr xs) prefix \<noteq> [] \<longleftrightarrow>
        (\<exists>(i, x) \<in> set (enumerate 0 xs). stringify_val x (prefix @ ''['' @ show_nat i @ '']'') \<noteq> [])"
    by fastforce
  also have "\<dots> \<longleftrightarrow> (\<exists>(i, x) \<in> set (enumerate 0 xs). has_segment x)"
    using "6.IH" by blast
  also have "\<dots> \<longleftrightarrow> (\<exists>x \<in> snd ` set (enumerate 0 xs). has_segment x)"
    by force
  also have "\<dots> \<longleftrightarrow> (\<exists>x \<in> set xs. has_segment x)"
    by (metis map_snd_enumerate set_map)
  finally show ?case by (simp add: list_ex_iff)
next
  case (7 kvs prefix)
  have "stringify_val (JObj kvs) prefix \<noteq> [] \<longleftrightarrow>
        (\<exists>(k, v) \<in> set kvs. stringify_val v (prefix @ ''.'' @ k) \<noteq> [])"
    by fastforce
  also have "\<dots> \<longleftrightarrow> (\<exists>(k, v) \<in> set kvs. has_segment v)"
    using "7.IH" by blast
  finally show ?case by (auto simp: list_ex_iff)
qed auto

lemma join_nonempty: "ps \<noteq> [] \<Longrightarrow> list_all (\<lambda>p. p \<noteq> []) ps \<Longrightarrow> join c ps \<noteq> []"
  by (induction c ps rule: join.induct) auto

lemma replace_first_append: "a \<notin> set p \<Longrightarrow> replace_first a b (p @ r) = p @ replace_first a b r"
  by (induction p) auto

lemma segment_key_encoded:
  assumes "list_all (\<lambda>c. c \<notin> set ''.[:='') k" and "c \<in> set ''.[=''"
  shows "segment_key (replace_first CHR ''='' CHR '':'' (k @ c # r)) = k"
proof -
  have "CHR ''='' \<notin> set k" using assms(1) by (auto simp: list_all_iff)
  then have "replace_first CHR ''='' CHR '':'' (k @ c # r)
      = k @ replace_first CHR ''='' CHR '':'' (c # r)"
    by (rule replace_first_append)
  moreover obtain c' r' where "replace_first CHR ''='' CHR '':'' (c # r) = c' # r'"
    and "c' \<in> set ''.[:=''"
    using assms(2) by auto
  moreover have "\<forall>x \<in> set k. x \<notin> set ''.[:=''" using assms(1) by (simp add: list_all_iff)
  ultimately show ?thesis
    unfolding segment_key_def by (simp add: takeWhile_append2 del: set_simps) 
qed

lemma segments_no_semi:
  assumes "chars_free '';'' (JObj obj)" and "seg \<in> set (segments obj)"
  shows "CHR '';'' \<notin> set seg"
proof -
  from assms(2) obtain k v where kv: "(k, v) \<in> set obj" and seg: "seg \<in> set (stringify_val v k)"
    by (auto simp: segments_def)
  have v: "chars_free '';'' v" and k: "CHR '';'' \<notin> set k"
    using kv assms(1) by (auto simp: list_all_iff)
  have c: "CHR '';'' \<in> set '';''" by simp
  show ?thesis by (rule stringify_val_no_semi [OF v c k seg])
qed

lemma segments_nonempty_strings: "seg \<in> set (segments obj) \<Longrightarrow> seg \<noteq> []"
  using stringify_val_shape by (fastforce simp: segments_def)

lemma stringifyArgs_segments:
  assumes "chars_free '';'' (JObj obj)"
  shows "stringifyArgs obj = join CHR '';'' (map (replace_first CHR ''='' CHR '':'') (segments obj))"
proof (cases "segments obj = []")
  case True
  then show ?thesis
    by (simp only: stringifyArgs_def qs_stringify_def segments_def [symmetric]) simp
next
  case False
  have "list_all (\<lambda>p. CHR '';'' \<notin> set p) (segments obj)"
    using segments_no_semi [OF assms] by (simp add: list_all_iff)
  with False have "split_on CHR '';'' (join CHR '';'' (segments obj)) = segments obj"
    by (rule split_on_join)
  then show ?thesis by (simp add: stringifyArgs_def qs_stringify_def segments_def)
qed

lemma fragment_keys_segments:
  assumes "chars_free '';'' (JObj obj)"
  shows "fragment_keys (stringifyArgs obj)
     = map (\<lambda>seg. segment_key (replace_first CHR ''='' CHR '':'' seg)) (segments obj)"
proof (cases "segments obj = []")
  case True
  then show ?thesis by (simp add: stringifyArgs_segments [OF assms] fragment_keys_def)
next
  case False
  let ?enc = "map (replace_first CHR ''='' CHR '':'') (segments obj)"
  have no_semi: "list_all (\<lambda>p. CHR '';'' \<notin> set p) ?enc"
  proof -
    have "\<And>seg. seg \<in> set (segments obj) \<Longrightarrow>
        CHR '';'' \<notin> set (replace_first CHR ''='' CHR '':'' seg)"
      using segments_no_semi [OF assms] set_replace_first [of "CHR ''=''" "CHR '':''"]
      by fastforce
    then show ?thesis by (simp add: list_all_iff)
  qed
  have ne: "?enc \<noteq> []" using False by simp
  have "list_all (\<lambda>p. p \<noteq> []) ?enc"
  proof -
    have "\<And>seg. seg \<noteq> [] \<Longrightarrow> replace_first CHR ''='' CHR '':'' seg \<noteq> []"
      by (case_tac seg) auto
    then show ?thesis using segments_nonempty_strings by (auto simp: list_all_iff)
  qed
  with ne have "join CHR '';'' ?enc \<noteq> []" by (rule join_nonempty)
  moreover have "split_on CHR '';'' (join CHR '';'' ?enc) = ?enc"
    using ne no_semi by (rule split_on_join)
  ultimately show ?thesis
    by (simp add: stringifyArgs_segments [OF assms] fragment_keys_def)
qed

lemma fragment_keys_exact:
  assumes "chars_free '';'' (JObj obj)"
    and "list_all (\<lambda>(k, v). list_all (\<lambda>c. c \<notin> set ''.[:='') k) obj"
  shows "set (fragment_keys (stringifyArgs obj)) = fst ` set (filter (\<lambda>(k, v). has_segment v) obj)"
proof -
  have key: "\<And>k v seg. (k, v) \<in> set obj \<Longrightarrow> seg \<in> set (stringify_val v k) \<Longrightarrow>
      segment_key (replace_first CHR ''='' CHR '':'' seg) = k"
  proof -
    fix k v seg assume kv: "(k, v) \<in> set obj" and seg: "seg \<in> set (stringify_val v k)"
    then obtain c r where "seg = k @ c # r" and c: "c \<in> set ''.[=''"
      using stringify_val_shape by blast
    moreover have "list_all (\<lambda>c. c \<notin> set ''.[:='') k"
      using kv assms(2) by (auto simp: list_all_iff)
    ultimately show "segment_key (replace_first CHR ''='' CHR '':'' seg) = k"
      using segment_key_encoded by blast
  qed
  have "set (fragment_keys (stringifyArgs obj))
      = (\<lambda>seg. segment_key (replace_first CHR ''='' CHR '':'' seg)) ` set (segments obj)"
    by (simp add: fragment_keys_segments [OF assms(1)])
  also have "\<dots> = {k. \<exists>v. (k, v) \<in> set obj \<and> stringify_val v k \<noteq> []}"
  proof (intro set_eqI iffI)
    fix x assume "x \<in> (\<lambda>seg. segment_key (replace_first CHR ''='' CHR '':'' seg)) ` set (segments obj)"
    then obtain seg k v where "(k, v) \<in> set obj" and "seg \<in> set (stringify_val v k)"
      and "x = segment_key (replace_first CHR ''='' CHR '':'' seg)"
      by (auto simp: segments_def)
    then show "x \<in> {k. \<exists>v. (k, v) \<in> set obj \<and> stringify_val v k \<noteq> []}"
      using key by force
  next
    fix x assume "x \<in> {k. \<exists>v. (k, v) \<in> set obj \<and> stringify_val v k \<noteq> []}"
    then obtain v where kv: "(x, v) \<in> set obj" and ne: "stringify_val v x \<noteq> []"
      by auto
    from ne obtain seg where seg: "seg \<in> set (stringify_val v x)"
      by (cases "stringify_val v x") auto
    have "seg \<in> set (segments obj)" using kv seg by (force simp: segments_def)
    moreover have "segment_key (replace_first CHR ''='' CHR '':'' seg) = x"
      using key [OF kv seg] .
    ultimately show "x \<in> (\<lambda>seg. segment_key (replace_first CHR ''='' CHR '':'' seg)) ` set (segments obj)"
      by force
  qed
  also have "\<dots> = fst ` set (filter (\<lambda>(k, v). has_segment v) obj)"
    by (force simp: stringify_val_has_segment)
  finally show ?thesis .
qed

lemma chars_free_filter:
  "chars_free cs (JObj obj) \<Longrightarrow> chars_free cs (JObj (filter P obj))"
  by (simp add: list_all_iff)

text \<open>
  C5 (as amended). With a captured baseline, the args object that is encoded into the
  navigation URL consists of exactly the entries of the current args whose value is not
  deep-equal to the baseline's value under the same key, for the \<open>STORY_ARGS_UPDATED\<close>
  handler and for the \<open>SET_CURRENT_STORY\<close> handler alike; the target is the current path,
  followed by \<open>&args=\<close> and the fragment unless the fragment is empty. When no key or
  string of the args contains the segment delimiter and no top-level key contains a
  character that ends a key in a segment, the keys of the fragment's segments are exactly
  the keys whose value differs from the baseline and serialises to at least one segment: a
  differing value that is \<open>undefined\<close>, or an array or object with nothing but such values
  inside, leaves no segment. The empty diff has the empty fragment, and the baseline
  \<open>{a: 1, b: 2}\<close> with the current args \<open>{a: 1, b: 5}\<close> gives the path followed by
  \<open>&args=b:5\<close>.
\<close>

theorem navigation_fragment_of_diff:
  "(initialArgs sid = Some baseline \<and> distinct (map fst args) \<longrightarrow>
      snd (onStoryArgsUpdated sid args currentPath initialArgs) =
        Inr [navigateWithArgs currentPath
               (filter (\<lambda>(k, v). \<not> deepEqual v (get baseline k)) args)]) \<and>
   (initialArgs (item_id data) = Some baseline \<and> item_isStory data \<and>
      item_args data = Some args \<and> distinct (map fst args) \<longrightarrow>
      snd (onSetCurrentStory data currentPath initialArgs) =
        Inr [navigateWithArgs currentPath
               (filter (\<lambda>(k, v). \<not> deepEqual v (get baseline k)) args)]) \<and>
   navigateWithArgs currentPath customizedArgs =
     QueryNavigate
       (currentPath @ (if stringifyArgs customizedArgs = [] then []
                       else ''&args='' @ stringifyArgs customizedArgs)) True \<and>
   (chars_free '';'' (JObj args) \<and>
      list_all (\<lambda>(k, v). list_all (\<lambda>c. c \<notin> set ''.[:='') k) args \<longrightarrow>
      set (fragment_keys
             (stringifyArgs (filter (\<lambda>(k, v). \<not> deepEqual v (get baseline k)) args)))
        = {k. \<exists>v. (k, v) \<in> set args \<and> \<not> deepEqual v (get baseline k) \<and> has_segment v}) \<and>
   stringifyArgs [] = [] \<and>
   snd (onStoryArgsUpdated ''x'' [(''a'', JNum 1), (''b'', JNum 5)] ''/story/x''
          (Map.empty(''x'' \<mapsto> [(''a'', JNum 1), (''b'', JNum 2)])))
     = Inr [QueryNavigate ''/story/x&args=b:5'' True]"
proof (intro conjI impI)
  assume "initialArgs sid = Some baseline \<and> distinct (map fst args)"
  then show "snd (onStoryArgsUpdated sid args currentPath initialArgs) =
        Inr [navigateWithArgs currentPath
               (filter (\<lambda>(k, v). \<not> deepEqual v (get baseline k)) args)]"
    by (simp add: onStoryArgsUpdated_def diffArgs_baseline)
next
  assume "initialArgs (item_id data) = Some baseline \<and> item_isStory data \<and>
      item_args data = Some args \<and> distinct (map fst args)"
  then show "snd (onSetCurrentStory data currentPath initialArgs) =
        Inr [navigateWithArgs currentPath
               (filter (\<lambda>(k, v). \<not> deepEqual v (get baseline k)) args)]"
    by (simp add: onSetCurrentStory_def diffArgs_baseline)
next
  show "navigateWithArgs currentPath customizedArgs =
     QueryNavigate
       (currentPath @ (if stringifyArgs customizedArgs = [] then []
                       else ''&args='' @ stringifyArgs customizedArgs)) True"
    by (simp add: navigateWithArgs_def)
next
  let ?diff = "filter (\<lambda>(k, v). \<not> deepEqual v (get baseline k)) args"
  assume a: "chars_free '';'' (JObj args) \<and>
      list_all (\<lambda>(k, v). list_all (\<lambda>c. c \<notin> set ''.[:='') k) args"
  then have "chars_free '';'' (JObj args)" by simp
  then have free: "chars_free '';'' (JObj ?diff)" by (rule chars_free_filter)
  have keys: "list_all (\<lambda>(k, v). list_all (\<lambda>c. c \<notin> set ''.[:='') k) ?diff"
    using a by (simp add: list_all_iff)
  have "set (fragment_keys (stringifyArgs ?diff))
      = fst ` set (filter (\<lambda>(k, v). has_segment v) ?diff)"
    using free keys by (rule fragment_keys_exact)
  also have "\<dots> = {k. \<exists>v. (k, v) \<in> set args \<and> \<not> deepEqual v (get baseline k) \<and> has_segment v}"
    by force
  finally show "set (fragment_keys (stringifyArgs ?diff))
      = {k. \<exists>v. (k, v) \<in> set args \<and> \<not> deepEqual v (get baseline k) \<and> has_segment v}" .
next
  show "stringifyArgs [] = []"
    by (simp add: stringifyArgs_def qs_stringify_def)
next
  show "snd (onStoryArgsUpdated ''x'' [(''a'', JNum 1), (''b'', JNum 5)] ''/story/x''
          (Map.empty(''x'' \<mapsto> [(''a'', JNum 1), (''b'', JNum 2)])))
     = Inr [QueryNavigate ''/story/x&args=b:5'' True]"
    by code_simp
qed

theorem navigation_fragment_of_diff_witness:
  "snd (onSetCurrentStory
          \<lparr>item_id = ''x'', item_isStory = True,
           item_args = Some [(''a'', JNum 1), (''b'', JNum 5), (''c'', JArr []), (''d'', JStr ''z'')]\<rparr>
          ''/story/x'' (Map.empty(''x'' \<mapsto> [(''a'', JNum 1), (''b'', JNum 2)])))
     = Inr [QueryNavigate ''/story/x&args=b:5;d:z'' True] \<and>
   set (fragment_keys ''b:5;d:z'') = {''b'', ''d''}"
proof -
  let ?args = "[(''a'', JNum 1), (''b'', JNum 5), (''c'', JArr []), (''d'', JStr ''z'')]"
  let ?base = "[(''a'', JNum 1), (''b'', JNum 2)]"
  let ?data = "\<lparr>item_id = ''x'', item_isStory = True, item_args = Some ?args\<rparr>"
  let ?ia = "Map.empty(''x'' \<mapsto> ?base)"
  have diff: "filter (\<lambda>(k, v). \<not> deepEqual v (get ?base k)) ?args
      = [(''b'', JNum 5), (''c'', JArr []), (''d'', JStr ''z'')]"
    by (simp add: get_def)
  have enc: "stringifyArgs [(''b'', JNum 5), (''c'', JArr []), (''d'', JStr ''z'')] = ''b:5;d:z''"
    by code_simp
  have keys: "{k. \<exists>v. (k, v) \<in> set ?args \<and> \<not> deepEqual v (get ?base k) \<and> has_segment v}
      = {''b'', ''d''}"
    by (auto simp: get_def)
  show ?thesis
    using navigation_fragment_of_diff [of ?ia "''x''" ?base ?args "''/story/x''" ?data
        "[(''b'', JNum 5), (''c'', JArr []), (''d'', JStr ''z'')]"] diff enc keys
    by simp
qed

text \<open>
  C5 as stated fails: for the baseline \<open>{a: [1]}\<close> and the current args \<open>{a: []}\<close> the
  value of \<open>a\<close> differs, yet the fragment has no segment for it and the target is the bare
  path.
\<close>

theorem empty_array_diff_counterexample:
  "\<not> deepEqual (JArr []) (get [(''a'', JArr [JNum 1])] ''a'') \<and>
   snd (onStoryArgsUpdated ''x'' [(''a'', JArr [])] ''/story/x''
          (Map.empty(''x'' \<mapsto> [(''a'', JArr [JNum 1])])))
     = Inr [QueryNavigate ''/story/x'' True]"
  by (simp add: get_def onStoryArgsUpdated_def navigateWithArgs_def stringifyArgs_def
      qs_stringify_def)

text \<open>
  C10. When the current item is not a story, the \<open>SET_CURRENT_STORY\<close> handler does not
  throw, leaves \<open>initialArgs\<close> as it reads, and issues one replace-navigation to the bare
  current path.
\<close>

theorem non_story_selection_navigates_bare:
  assumes "\<not> item_isStory data"
  shows "onSetCurrentStory data currentPath initialArgs
           = (initialArgs, Inr [QueryNavigate currentPath True])"
proof -
  have "initialArgs(item_id data :=
          (case initialArgs (item_id data) of None \<Rightarrow> None | Some b \<Rightarrow> Some b)) = initialArgs"
    by (auto split: option.splits)
  then show ?thesis
    using assms by (simp add: onSetCurrentStory_def navigateWithArgs_empty)
qed

theorem non_story_selection_navigates_bare_witness:
  "onSetCurrentStory \<lparr>item_id = ''group'', item_isStory = False, item_args = None\<rparr>
      ''/story/group'' (Map.empty(''x'' \<mapsto> [(''a'', JNum 1)]))
     = (Map.empty(''x'' \<mapsto> [(''a'', JNum 1)]), Inr [QueryNavigate ''/story/group'' True])"
  using non_story_selection_navigates_bare
    [of "\<lparr>item_id = ''group'', item_isStory = False, item_args = None\<rparr>"]
  by simp

text \<open>
  C4. The claim does not hold of the code: with no baseline for the item and at least one
  entry in the updated args, the \<open>STORY_ARGS_UPDATED\<close> handler throws a TypeError on
  reading \<open>initialArgs[storyId][key]\<close> and navigates nowhere.
\<close>

theorem args_update_without_baseline_throws:
  "onStoryArgsUpdated ''x'' [(''a'', JNum 1)] ''/story/x'' Map.empty = (Map.empty, Inl TypeError)"
  by (simp add: onStoryArgsUpdated_def)

lemma handle_keeps_baseline:
  "initialArgs i = Some baseline \<Longrightarrow> \<not> recaptures i ev \<Longrightarrow>
   fst (handle parse ev initialArgs) i = Some baseline"
  by (cases ev) (auto simp: onSetStories_def onSetCurrentStory_def onStoryArgsUpdated_def Let_def)

text \<open>
  C3 (as amended). A baseline that is present survives every sequence of events in which
  the \<open>SET_STORIES\<close> handler does not run for that item: \<open>SET_CURRENT_STORY\<close> writes the
  baseline only while it is absent, and \<open>STORY_ARGS_UPDATED\<close> never writes it. The
  \<open>SET_STORIES\<close> handler sets the baseline of the current item to the item's args
  whether or not one was present.
\<close>

theorem baseline_kept_until_set_stories:
  "(initialArgs i = Some baseline \<and> list_all (\<lambda>ev. \<not> recaptures i ev) evs \<longrightarrow>
      run parse evs initialArgs i = Some baseline) \<and>
   (initialArgs (item_id data) = None \<longrightarrow>
      fst (onSetCurrentStory data currentPath initialArgs) (item_id data)
        = (if item_isStory data then item_args data else None)) \<and>
   fst (onSetStories parse data st initialArgs) (item_id data)
     = (if item_isStory data then item_args data else None)"
proof (intro conjI impI)
  assume "initialArgs i = Some baseline \<and> list_all (\<lambda>ev. \<not> recaptures i ev) evs"
  then show "run parse evs initialArgs i = Some baseline"
  proof (induction evs arbitrary: initialArgs)
    case Nil
    then show ?case by simp
  next
    case (Cons ev evs)
    then have "fst (handle parse ev initialArgs) i = Some baseline"
      by (simp add: handle_keeps_baseline)
    then show ?case using Cons by simp
  qed
next
  assume "initialArgs (item_id data) = None"
  then show "fst (onSetCurrentStory data currentPath initialArgs) (item_id data)
        = (if item_isStory data then item_args data else None)"
    by (simp add: onSetCurrentStory_def Let_def)
next
  show "fst (onSetStories parse data st initialArgs) (item_id data)
     = (if item_isStory data then item_args data else None)"
    by (simp add: onSetStories_def Let_def)
qed

theorem baseline_kept_until_set_stories_witness:
  "run (\<lambda>s. []) [SET_CURRENT_STORY (story_x [(''a'', JNum 2)]) ''/story/x'',
                  STORY_ARGS_UPDATED ''x'' [(''a'', JNum 3)] ''/story/x'']
     (Map.empty(''x'' \<mapsto> [(''a'', JNum 1)])) ''x'' = Some [(''a'', JNum 1)] \<and>
   fst (onSetCurrentStory (story_x [(''a'', JNum 2)]) ''/story/x'' Map.empty) ''x''
     = Some [(''a'', JNum 2)]"
  using baseline_kept_until_set_stories
    [of "Map.empty(''x'' \<mapsto> [(''a'', JNum 1)])" "''x''" "[(''a'', JNum 1)]"
        "[SET_CURRENT_STORY (story_x [(''a'', JNum 2)]) ''/story/x'',
          STORY_ARGS_UPDATED ''x'' [(''a'', JNum 3)] ''/story/x'']"
        "\<lambda>s. []" "story_x [(''a'', JNum 2)]" "''/story/x''"]
    baseline_kept_until_set_stories
    [of Map.empty "''x''" "[]" "[]" "\<lambda>s. []" "story_x [(''a'', JNum 2)]" "''/story/x''"]
  by (simp add: story_x_def)

text \<open>
  C3 as stated fails: a baseline captured on selection is replaced when \<open>SET_STORIES\<close>
  arrives with other args for the same item.
\<close>

theorem set_stories_overwrites_counterexample:
  "fst (handle (\<lambda>s. []) (SET_CURRENT_STORY (story_x [(''a'', JNum 1)]) ''/story/x'') Map.empty) ''x''
     = Some [(''a'', JNum 1)] \<and>
   run (\<lambda>s. [])
     [SET_CURRENT_STORY (story_x [(''a'', JNum 1)]) ''/story/x'',
      SET_STORIES (story_x [(''a'', JNum 2)])
        \<lparr>store_customQueryParams = Some [], store_path = ''/story/x''\<rparr>]
     Map.empty ''x'' = Some [(''a'', JNum 2)]"
  by (simp add: story_x_def onSetCurrentStory_def onSetStories_def Let_def)

end
